theory Spec2Isabelle
  imports Main
begin

section \<open>The codec of serialize.ts\<close>

text \<open>
  The theory embeds the three functions of \<^verbatim>\<open>src/serialize.ts\<close> that form the
  codec: \<^verbatim>\<open>determineBitsPerNumber\<close>, \<^verbatim>\<open>serialize\<close> and \<^verbatim>\<open>deserialize\<close>.
  The input of \<^verbatim>\<open>serialize\<close> is a list of integers (\<open>int list\<close>); JavaScript strings
  are \<open>string\<close>; a thrown error is the left summand of the result.
  The source throws plain \<^verbatim>\<open>Error\<close> objects that differ in their message only; each
  message is one constructor of \<open>error\<close>. One more constructor is the error that the
  engine itself throws in line 26 when the array is too long to be spread into one call.
\<close>

subsection \<open>Values\<close>

text \<open>A JavaScript number as \<^verbatim>\<open>parseInt\<close> returns it: an integer or \<^verbatim>\<open>NaN\<close>.\<close>

datatype number = Num int | NaN

text \<open>The result of \<^verbatim>\<open>Math.max\<close> over integers: \<^verbatim>\<open>-Infinity\<close> for no argument.\<close>

datatype maxval = NegInfinity | Finite int

text \<open>
  The errors, by message: \<open>OutOfRange\<close> is line 44, \<open>UnsupportedBits\<close> line 58,
  \<open>InvalidCharacter ch\<close> line 98 (the message carries the character) and
  \<open>InvalidBitsCode\<close> line 120. \<open>CallStackExceeded\<close> is the engine's
  \<^verbatim>\<open>RangeError: Maximum call stack size exceeded\<close>, thrown by the call of line 26.
\<close>

datatype error =
  OutOfRange | UnsupportedBits | InvalidCharacter char | InvalidBitsCode | CallStackExceeded

definition BASE64_CHARS :: string where
  "BASE64_CHARS = ''ABCDEFGHIJKLMNOPQRSTUVWXYZabcdefghijklmnopqrstuvwxyz0123456789+/''"

subsection \<open>The string primitives of JavaScript that the source calls\<close>

definition bit_char :: "nat \<Rightarrow> char" where
  "bit_char d = (if d = 0 then CHR ''0'' else CHR ''1'')"

text \<open>The binary digits of a natural number, most significant first; \<open>''0''\<close> for 0.\<close>

fun bin_digits :: "nat \<Rightarrow> string" where
  "bin_digits n = (if n < 2 then [bit_char n] else bin_digits (n div 2) @ [bit_char (n mod 2)])"

declare bin_digits.simps [simp del]

text \<open>\<^verbatim>\<open>Number.prototype.toString(2)\<close> on an integer: a minus sign before the digits of a
  negative one.\<close>

definition toString2 :: "int \<Rightarrow> string" where
  "toString2 i = (if i < 0 then CHR ''-'' # bin_digits (nat (- i)) else bin_digits (nat i))"

text \<open>\<^verbatim>\<open>s.padStart(n, "0")\<close> and \<^verbatim>\<open>s.padEnd(n, "0")\<close>: a string of length \<open>n\<close> or more is
  returned as it is.\<close>

definition padStart :: "string \<Rightarrow> nat \<Rightarrow> string" where
  "padStart s n = replicate (n - length s) (CHR ''0'') @ s"

definition padEnd :: "string \<Rightarrow> nat \<Rightarrow> string" where
  "padEnd s n = s @ replicate (n - length s) (CHR ''0'')"

text \<open>\<^verbatim>\<open>s.substr(pos, n)\<close> for \<open>pos \<ge> 0\<close>: shorter than \<open>n\<close>, or empty, at the end of the
  string.\<close>

definition substr :: "string \<Rightarrow> nat \<Rightarrow> nat \<Rightarrow> string" where
  "substr s pos n = take n (drop pos s)"

definition is_bit :: "char \<Rightarrow> bool" where
  "is_bit c = (c = CHR ''0'' \<or> c = CHR ''1'')"

text \<open>
  \<^verbatim>\<open>parseInt(s, 2)\<close>: the value of the longest prefix of binary digits, \<^verbatim>\<open>NaN\<close> when
  that prefix is empty. (The white space and the sign that \<^verbatim>\<open>parseInt\<close> also accepts
  are left out: every string that reaches it here is cut from a string of binary digits,
  see \<open>unpack_bits\<close> and \<open>bitStr_bits\<close> below.)
\<close>

definition parseInt2 :: "string \<Rightarrow> number" where
  "parseInt2 s =
     (let ds = takeWhile is_bit s
      in if ds = [] then NaN
         else Num (foldl (\<lambda>a c. 2 * a + (if c = CHR ''1'' then 1 else 0)) 0 ds))"

text \<open>\<^verbatim>\<open>s.indexOf(ch)\<close> for a one-character \<open>ch\<close>: the first position, or -1.\<close>

fun index_from :: "string \<Rightarrow> char \<Rightarrow> int \<Rightarrow> int" where
  "index_from [] ch i = - 1"
| "index_from (c # cs) ch i = (if c = ch then i else index_from cs ch (i + 1))"

definition indexOf :: "string \<Rightarrow> char \<Rightarrow> int" where
  "indexOf s ch = index_from s ch 0"

text \<open>\<^verbatim>\<open>result += BASE64_CHARS[index]\<close>: outside the string the read is \<^verbatim>\<open>undefined\<close>,
  which \<^verbatim>\<open>+=\<close> appends as the text \<^verbatim>\<open>undefined\<close>.\<close>

definition char_at_index :: "number \<Rightarrow> string" where
  "char_at_index idx =
     (case idx of
        Num k \<Rightarrow> if 0 \<le> k \<and> k < int (length BASE64_CHARS) then [BASE64_CHARS ! nat k]
                 else ''undefined''
      | NaN \<Rightarrow> ''undefined'')"

subsection \<open>determineBitsPerNumber (lines 25-30)\<close>

text \<open>
  \<^verbatim>\<open>Math.max(...numbers)\<close> passes every element of the array as one argument of the
  call. An engine takes only so many arguments in one call and throws
  \<^verbatim>\<open>RangeError: Maximum call stack size exceeded\<close> beyond that; the language fixes no
  bound. \<open>max_arguments\<close> is the bound: about 125 thousand under Node.js with its default
  stack, and 125506 is the value taken here. Another engine or stack size has another
  bound; the general statements below name it only as \<open>max_arguments\<close>, and its value
  matters where a concrete input is evaluated (all of them far below it, or, with 130000
  numbers, above).
\<close>

definition max_arguments :: nat where
  "max_arguments = 125506"

text \<open>The value of \<^verbatim>\<open>Math.max\<close> when the call is made.\<close>

fun max_of :: "int list \<Rightarrow> maxval" where
  "max_of [] = NegInfinity"
| "max_of (x # xs) = (case max_of xs of NegInfinity \<Rightarrow> Finite x | Finite m \<Rightarrow> Finite (max x m))"

text \<open>Line 26.\<close>

definition math_max :: "int list \<Rightarrow> error + maxval" where
  "math_max numbers =
     (if max_arguments < length numbers then Inl CallStackExceeded
      else Inr (max_of numbers))"

text \<open>\<^verbatim>\<open>max < k\<close>: \<^verbatim>\<open>-Infinity\<close> is below every number.\<close>

fun less_num :: "maxval \<Rightarrow> int \<Rightarrow> bool" where
  "less_num NegInfinity k = True"
| "less_num (Finite m) k = (m < k)"

text \<open>Lines 27-29.\<close>

definition bits_for_max :: "maxval \<Rightarrow> nat" where
  "bits_for_max mx =
     (if less_num mx 10 then 4
      else if less_num mx 100 then 7
      else 9)"

definition determineBitsPerNumber :: "int list \<Rightarrow> error + nat" where
  "determineBitsPerNumber numbers =
     (case math_max numbers of
        Inl e \<Rightarrow> Inl e
      | Inr mx \<Rightarrow> Inr (bits_for_max mx))"

subsection \<open>serialize (lines 42-87)\<close>

text \<open>Lines 54-58: the two bits that name the width.\<close>

definition bitsCode_of :: "nat \<Rightarrow> error + string" where
  "bitsCode_of bitsPerNumber =
     (if bitsPerNumber = 4 then Inr ''00''
      else if bitsPerNumber = 7 then Inr ''01''
      else if bitsPerNumber = 9 then Inr ''10''
      else Inl UnsupportedBits)"

text \<open>Lines 62-66: the flag and the length of the array.\<close>

definition length_field :: "nat \<Rightarrow> string" where
  "length_field n =
     (if n < 64 then CHR ''0'' # padStart (toString2 (int n)) 6
      else CHR ''1'' # padStart (toString2 (int n)) 10)"

text \<open>Lines 71-73: every number on \<open>bitsPerNumber\<close> digits, in order.\<close>

fun number_bits :: "nat \<Rightarrow> int list \<Rightarrow> string" where
  "number_bits bitsPerNumber [] = []"
| "number_bits bitsPerNumber (num # rest) =
     padStart (toString2 num) bitsPerNumber @ number_bits bitsPerNumber rest"

text \<open>Lines 76-77: zeros up to a multiple of 6.\<close>

definition pad6 :: "string \<Rightarrow> string" where
  "pad6 bitStr = (let padding = (6 - (length bitStr mod 6)) mod 6
                  in padEnd bitStr (length bitStr + padding))"

text \<open>Lines 81-85: the loop over \<open>i = 0, 6, 12, ...\<close> while \<open>i < bitStr.length\<close>.\<close>

function pack :: "string \<Rightarrow> nat \<Rightarrow> string" where
  "pack bitStr i =
     (if i < length bitStr
      then char_at_index (parseInt2 (substr bitStr i 6)) @ pack bitStr (i + 6)
      else [])"
  by pat_completeness auto
termination
  by (relation "measure (\<lambda>(bitStr, i). length bitStr - i)") auto

declare pack.simps [simp del]

text \<open>Lines 43-77: the padded bit string, or the error thrown before it is complete.\<close>

definition bitStr_of :: "int list \<Rightarrow> error + string" where
  "bitStr_of numbers =
     (if \<exists>num \<in> set numbers. num < 1 \<or> num > 300 then Inl OutOfRange
      else case determineBitsPerNumber numbers of
             Inl e \<Rightarrow> Inl e
           | Inr bitsPerNumber \<Rightarrow>
               (case bitsCode_of bitsPerNumber of
                  Inl e \<Rightarrow> Inl e
                | Inr bitsCode \<Rightarrow>
                    Inr (pad6 (length_field (length numbers) @ bitsCode
                               @ number_bits bitsPerNumber numbers))))"

definition serialize :: "int list \<Rightarrow> error + string" where
  "serialize numbers =
     (case bitStr_of numbers of
        Inl e \<Rightarrow> Inl e
      | Inr bitStr \<Rightarrow> Inr (pack bitStr 0))"

subsection \<open>deserialize (lines 94-130)\<close>

text \<open>Lines 95-100: six binary digits for every character, or the error at the first
  character that is not in the alphabet.\<close>

fun unpack :: "string \<Rightarrow> error + string" where
  "unpack [] = Inr []"
| "unpack (ch # rest) =
     (let index = indexOf BASE64_CHARS ch
      in if index = - 1 then Inl (InvalidCharacter ch)
         else case unpack rest of
                Inl e \<Rightarrow> Inl e
              | Inr bits \<Rightarrow> Inr (padStart (toString2 index) 6 @ bits))"

text \<open>Lines 117-120.\<close>

definition bitsPerNumber_of :: "string \<Rightarrow> error + nat" where
  "bitsPerNumber_of bitsCode =
     (if bitsCode = ''00'' then Inr 4
      else if bitsCode = ''01'' then Inr 7
      else if bitsCode = ''10'' then Inr 9
      else Inl InvalidBitsCode)"

text \<open>The number of rounds of \<^verbatim>\<open>for (let i = 0; i < count; i++)\<close>: none when \<open>count\<close>
  is \<^verbatim>\<open>NaN\<close>.\<close>

definition rounds :: "number \<Rightarrow> nat" where
  "rounds count = (case count of Num k \<Rightarrow> nat k | NaN \<Rightarrow> 0)"

text \<open>Lines 123-128, \<open>n\<close> rounds from position \<open>pos\<close>.\<close>

fun read_numbers :: "string \<Rightarrow> nat \<Rightarrow> nat \<Rightarrow> nat \<Rightarrow> number list" where
  "read_numbers bitStr bitsPerNumber pos 0 = []"
| "read_numbers bitStr bitsPerNumber pos (Suc n) =
     parseInt2 (substr bitStr pos bitsPerNumber)
       # read_numbers bitStr bitsPerNumber (pos + bitsPerNumber) n"

text \<open>Line 104, \<^verbatim>\<open>flag === "0"\<close>: \<^verbatim>\<open>bitStr[0]\<close> of the empty string is \<^verbatim>\<open>undefined\<close>,
  which is not \<^verbatim>\<open>"0"\<close>.\<close>

definition flag_is_0 :: "string \<Rightarrow> bool" where
  "flag_is_0 bitStr = (bitStr \<noteq> [] \<and> hd bitStr = CHR ''0'')"

text \<open>Lines 102-112: the count and the position after it.\<close>

definition read_count :: "string \<Rightarrow> number \<times> nat" where
  "read_count bitStr =
     (if flag_is_0 bitStr then (parseInt2 (substr bitStr 1 6), 1 + 6)
      else (parseInt2 (substr bitStr 1 10), 1 + 10))"

text \<open>Lines 102-129 on the unpacked bit string.\<close>

definition read_bits :: "string \<Rightarrow> error + number list" where
  "read_bits bitStr =
     (let (count, pos) = read_count bitStr;
          bitsCode = substr bitStr pos 2
      in case bitsPerNumber_of bitsCode of
           Inl e \<Rightarrow> Inl e
         | Inr bitsPerNumber \<Rightarrow>
             Inr (read_numbers bitStr bitsPerNumber (pos + 2) (rounds count)))"

definition deserialize :: "string \<Rightarrow> error + number list" where
  "deserialize serialized =
     (case unpack serialized of
        Inl e \<Rightarrow> Inl e
      | Inr bitStr \<Rightarrow> read_bits bitStr)"

subsection \<open>Notions of the statements\<close>

text \<open>A string of binary digits, and the number it writes (most significant digit
  first).\<close>

definition all_bits :: "string \<Rightarrow> bool" where
  "all_bits s = list_all is_bit s"

definition bits_value :: "string \<Rightarrow> int" where
  "bits_value s = foldl (\<lambda>a c. 2 * a + (if c = CHR ''1'' then 1 else 0)) 0 s"

text \<open>\<^verbatim>\<open>deserialize(serialize(numbers))\<close>, with the error of whichever call throws.\<close>

definition decode_encode :: "int list \<Rightarrow> error + number list" where
  "decode_encode numbers =
     (case serialize numbers of
        Inl e \<Rightarrow> Inl e
      | Inr serialized \<Rightarrow> deserialize serialized)"

text \<open>The width that \<open>determineBitsPerNumber\<close> returns when it returns.\<close>

definition width :: "int list \<Rightarrow> nat" where
  "width numbers = bits_for_max (max_of numbers)"

text \<open>The number of digits before the first number in the bit string of \<open>count\<close>
  numbers: flag, count and width code.\<close>

definition header_bits :: "nat \<Rightarrow> nat" where
  "header_bits count =
     (if count < 64 then 9
      else if count < 1024 then 13
      else 3 + length (bin_digits count))"

section \<open>Evaluation\<close>

text \<open>The comparison with \<open>max_arguments\<close> on binary numerals, for evaluating the code on
  concrete inputs.\<close>

lemma math_max_code [code]:
  "math_max numbers =
     (if (125506::int) < int (length numbers) then Inl CallStackExceeded
      else Inr (max_of numbers))"
  by (simp add: math_max_def max_arguments_def)

section \<open>Binary digits\<close>

lemma all_bits_simps [simp]:
  "all_bits []"
  "all_bits (c # s) = (is_bit c \<and> all_bits s)"
  "all_bits (s @ t) = (all_bits s \<and> all_bits t)"
  "all_bits (replicate n c) = (n = 0 \<or> is_bit c)"
  by (auto simp: all_bits_def list_all_iff)

lemma is_bit_simps [simp]: "is_bit (CHR ''0'')" "is_bit (CHR ''1'')" "is_bit (bit_char d)"
  by (simp_all add: is_bit_def bit_char_def)

lemma all_bits_take [simp]: "all_bits s \<Longrightarrow> all_bits (take n s)"
  by (auto simp: all_bits_def list_all_iff dest: in_set_takeD)

lemma all_bits_drop [simp]: "all_bits s \<Longrightarrow> all_bits (drop n s)"
  by (auto simp: all_bits_def list_all_iff dest: in_set_dropD)

lemma parseInt2_bits: "all_bits s \<Longrightarrow> s \<noteq> [] \<Longrightarrow> parseInt2 s = Num (bits_value s)"
proof -
  assume a: "all_bits s" and n: "s \<noteq> []"
  from a have tw: "takeWhile is_bit s = s"
    by (simp add: all_bits_def list_all_iff)
  show ?thesis unfolding parseInt2_def bits_value_def Let_def tw using n by simp
qed

lemma parseInt2_Nil [simp]: "parseInt2 [] = NaN"
  by (simp add: parseInt2_def)

lemma bits_value_Nil [simp]: "bits_value [] = 0"
  by (simp add: bits_value_def)

lemma bits_value_snoc [simp]:
  "bits_value (s @ [c]) = 2 * bits_value s + (if c = CHR ''1'' then 1 else 0)"
  by (simp add: bits_value_def)

lemma bits_value_nonneg: "0 \<le> bits_value s"
  by (induction s rule: rev_induct) auto

lemma bits_value_append:
  "bits_value (s @ t) = bits_value s * 2 ^ length t + bits_value t"
  by (induction t rule: rev_induct) (simp_all add: algebra_simps flip: append_assoc)

lemma bits_value_zeros [simp]: "bits_value (replicate n (CHR ''0'')) = 0"
proof (induction n)
  case 0
  show ?case by simp
next
  case (Suc n)
  have "replicate (Suc n) (CHR ''0'') = replicate n (CHR ''0'') @ [CHR ''0'']"
    by (simp add: replicate_append_same)
  then show ?case using Suc by (simp only: bits_value_snoc) simp
qed

lemma bits_value_bound: "bits_value s < 2 ^ length s"
  by (induction s rule: rev_induct) auto

lemma bits_value_0_zeros:
  "all_bits s \<Longrightarrow> bits_value s = 0 \<Longrightarrow> s = replicate (length s) (CHR ''0'')"
proof (induction s rule: rev_induct)
  case Nil
  then show ?case by simp
next
  case (snoc c s)
  have nn: "0 \<le> bits_value s" by (rule bits_value_nonneg)
  from snoc.prems have e: "2 * bits_value s + (if c = CHR ''1'' then 1 else 0) = 0"
    by simp
  have c1: "c \<noteq> CHR ''1''"
  proof
    assume "c = CHR ''1''"
    with e have "2 * bits_value s + 1 = 0" by simp
    with nn show False by arith
  qed
  from snoc.prems have "is_bit c" by simp
  with c1 have c: "c = CHR ''0''" by (simp add: is_bit_def)
  from e c1 have z: "bits_value s = 0" by simp
  with snoc have "s = replicate (length s) (CHR ''0'')" by simp
  then have "s @ [c] = replicate (length s) (CHR ''0'') @ [CHR ''0'']" using c by simp
  then show ?case by (simp add: replicate_append_same)
qed

lemma bin_digits_not_Nil [simp]: "bin_digits n \<noteq> []"
  by (subst bin_digits.simps) simp

lemma bin_digits_bits [simp]: "all_bits (bin_digits n)"
  by (induction n rule: bin_digits.induct) (subst bin_digits.simps, simp)

lemma bin_digits_value [simp]: "bits_value (bin_digits n) = int n"
proof (induction n rule: bin_digits.induct)
  case (1 n)
  show ?case
  proof (cases "n < 2")
    case True
    then have "n = 0 \<or> n = 1" by arith
    then show ?thesis
      by (subst bin_digits.simps) (auto simp: bits_value_def bit_char_def)
  next
    case False
    with 1 have ih: "bits_value (bin_digits (n div 2)) = int (n div 2)" by simp
    have "bits_value (bin_digits n) = 2 * int (n div 2) + int (n mod 2)"
      using False ih by (subst bin_digits.simps) (simp add: bit_char_def)
    then show ?thesis by (simp add: zdiv_int zmod_int)
  qed
qed

lemma bin_digits_length_le: "0 < k \<Longrightarrow> n < 2 ^ k \<Longrightarrow> length (bin_digits n) \<le> k"
proof (induction n arbitrary: k rule: bin_digits.induct)
  case (1 n)
  show ?case
  proof (cases "n < 2")
    case True
    then show ?thesis using "1.prems" by (subst bin_digits.simps) simp
  next
    case False
    from "1.prems" obtain j where k: "k = Suc j" by (cases k) auto
    from False "1.prems" k have j: "0 < j" by (cases j) auto
    from "1.prems" k have "n div 2 < 2 ^ j" by auto
    with 1 False j have "length (bin_digits (n div 2)) \<le> j" by simp
    then show ?thesis using False k by (subst bin_digits.simps) simp
  qed
qed

lemma bin_digits_length_gt: "2 ^ k \<le> n \<Longrightarrow> k < length (bin_digits n)"
proof (induction n arbitrary: k rule: bin_digits.induct)
  case (1 n)
  show ?case
  proof (cases "n < 2")
    case True
    have "k = 0"
    proof (rule ccontr)
      assume "k \<noteq> 0"
      then have "(2::nat) ^ 1 \<le> 2 ^ k" by (intro power_increasing) auto
      with True "1.prems" show False by simp
    qed
    then show ?thesis by (subst bin_digits.simps) (simp add: True)
  next
    case False
    show ?thesis
    proof (cases k)
      case 0
      then show ?thesis using bin_digits_not_Nil [of n] by (cases "bin_digits n") auto
    next
      case (Suc j)
      with "1.prems" have "2 ^ j \<le> n div 2" by auto
      with 1 False have "j < length (bin_digits (n div 2))" by simp
      then show ?thesis using False Suc by (subst bin_digits.simps) simp
    qed
  qed
qed

lemma bin_digits_hd: "0 < n \<Longrightarrow> hd (bin_digits n) = CHR ''1''"
proof (induction n rule: bin_digits.induct)
  case (1 n)
  show ?case
  proof (cases "n < 2")
    case True
    with "1.prems" have "n = 1" by arith
    then show ?thesis by (subst bin_digits.simps) (simp add: bit_char_def)
  next
    case False
    then have "0 < n div 2" by arith
    with 1 False have "hd (bin_digits (n div 2)) = CHR ''1''" by simp
    then show ?thesis using False by (subst bin_digits.simps) simp
  qed
qed

lemma padStart_length: "length (padStart s n) = max n (length s)"
  by (simp add: padStart_def)

lemma padStart_bits [simp]: "all_bits (padStart s n) = all_bits s"
  by (auto simp: padStart_def)

lemma padStart_value [simp]: "bits_value (padStart s n) = bits_value s"
  by (simp add: padStart_def bits_value_append)

lemma padStart_snoc: "padStart (s @ [c]) (Suc n) = padStart s n @ [c]"
  by (simp add: padStart_def)

text \<open>Digits written on their own length are read back and printed unchanged.\<close>

lemma padStart_bin_digits_value:
  "all_bits s \<Longrightarrow> s \<noteq> [] \<Longrightarrow> padStart (bin_digits (nat (bits_value s))) (length s) = s"
proof (induction s rule: rev_induct)
  case Nil
  then show ?case by simp
next
  case (snoc c s)
  from snoc.prems have bs: "all_bits s" and bc: "is_bit c" by simp_all
  have nn: "0 \<le> bits_value s" by (rule bits_value_nonneg)
  define d :: nat where "d = (if c = CHR ''1'' then 1 else 0)"
  have c: "bit_char d = c" using bc by (auto simp: d_def bit_char_def is_bit_def)
  have v: "nat (bits_value (s @ [c])) = 2 * nat (bits_value s) + d"
    using nn by (simp add: d_def nat_add_distrib nat_mult_distrib)
  show ?case
  proof (cases "bits_value s = 0")
    case True
    with bs have z: "s = replicate (length s) (CHR ''0'')" by (rule bits_value_0_zeros)
    have "bin_digits (nat (bits_value (s @ [c]))) = [c]"
      unfolding v using True c by (subst bin_digits.simps) (simp add: d_def)
    then have "padStart (bin_digits (nat (bits_value (s @ [c])))) (length (s @ [c]))
               = replicate (length s) (CHR ''0'') @ [c]"
      by (simp add: padStart_def)
    with z show ?thesis by simp
  next
    case False
    with nn have pos: "0 < nat (bits_value s)" by simp
    then have sn: "s \<noteq> []" by (cases s) auto
    have dv: "(2 * nat (bits_value s) + d) div 2 = nat (bits_value s)"
      and md: "(2 * nat (bits_value s) + d) mod 2 = d"
      by (simp_all add: d_def)
    have ge: "\<not> 2 * nat (bits_value s) + d < 2" using pos by arith
    have "bin_digits (nat (bits_value (s @ [c]))) = bin_digits (nat (bits_value s)) @ [c]"
      unfolding v by (subst bin_digits.simps) (simp only: ge dv md c if_False)
    then show ?thesis using snoc.IH [OF bs sn] by (simp add: padStart_snoc)
  qed
qed

section \<open>The alphabet and the packer\<close>

lemma BASE64_length [simp]: "length BASE64_CHARS = 64"
  by (simp add: BASE64_CHARS_def)

lemma BASE64_distinct: "distinct BASE64_CHARS"
  by (simp add: BASE64_CHARS_def)

lemma index_from_notin: "ch \<notin> set s \<Longrightarrow> index_from s ch i = - 1"
  by (induction s arbitrary: i) auto

lemma index_from_in: "ch \<in> set s \<Longrightarrow> i \<le> index_from s ch i"
proof (induction s arbitrary: i)
  case Nil
  then show ?case by simp
next
  case (Cons c s)
  show ?case
  proof (cases "c = ch")
    case True
    then show ?thesis by simp
  next
    case False
    with Cons.prems have "ch \<in> set s" by simp
    then have "i + 1 \<le> index_from s ch (i + 1)" by (rule Cons.IH)
    with False show ?thesis by simp
  qed
qed

lemma index_from_nth:
  "distinct s \<Longrightarrow> k < length s \<Longrightarrow> index_from s (s ! k) i = i + int k"
proof (induction s arbitrary: i k)
  case Nil
  then show ?case by simp
next
  case (Cons c s)
  show ?case
  proof (cases k)
    case 0
    then show ?thesis by simp
  next
    case (Suc j)
    with Cons.prems have j: "j < length s" and d: "distinct s" and n: "c \<noteq> s ! j"
      by auto
    from Cons.IH [OF d j] have "index_from s (s ! j) (i + 1) = i + 1 + int j" .
    with n Suc show ?thesis by simp
  qed
qed

lemma indexOf_minus1: "indexOf s ch = - 1 \<longleftrightarrow> ch \<notin> set s"
proof
  assume m: "indexOf s ch = - 1"
  show "ch \<notin> set s"
  proof
    assume "ch \<in> set s"
    then have "0 \<le> index_from s ch 0" by (rule index_from_in)
    with m show False by (simp add: indexOf_def)
  qed
next
  assume "ch \<notin> set s"
  then show "indexOf s ch = - 1" by (simp add: indexOf_def index_from_notin)
qed

lemma indexOf_BASE64_nth: "v < 64 \<Longrightarrow> indexOf BASE64_CHARS (BASE64_CHARS ! v) = int v"
  using index_from_nth [OF BASE64_distinct, of v 0] by (simp add: indexOf_def)

lemma chunk_value: "length c = 6 \<Longrightarrow> nat (bits_value c) < 64"
  using bits_value_bound [of c] bits_value_nonneg [of c] by simp

lemma char_at_index_chunk:
  assumes "all_bits c" and "length c = 6"
  shows "char_at_index (parseInt2 c) = [BASE64_CHARS ! nat (bits_value c)]"
proof -
  from assms have ne: "c \<noteq> []" by auto
  have "bits_value c < 64" using bits_value_bound [of c] assms by simp
  then show ?thesis
    using bits_value_nonneg [of c] by (simp add: parseInt2_bits [OF assms(1) ne] char_at_index_def)
qed

lemma toString2_int [simp]: "toString2 (int n) = bin_digits n"
  by (simp add: toString2_def)

lemma unpack_symbol:
  assumes "v < 64" and "unpack rest = Inr bits"
  shows "unpack (BASE64_CHARS ! v # rest) = Inr (padStart (bin_digits v) 6 @ bits)"
  using assms by (simp add: indexOf_BASE64_nth)

lemma unpack_chunk:
  assumes "all_bits c" and "length c = 6" and "unpack rest = Inr bits"
  shows "unpack (char_at_index (parseInt2 c) @ rest) = Inr (c @ bits)"
proof -
  from assms have ne: "c \<noteq> []" by auto
  have "padStart (bin_digits (nat (bits_value c))) 6 = c"
    using padStart_bin_digits_value [OF assms(1) ne] assms(2) by simp
  moreover have "unpack (BASE64_CHARS ! nat (bits_value c) # rest)
                 = Inr (padStart (bin_digits (nat (bits_value c))) 6 @ bits)"
    using chunk_value [OF assms(2)] assms(3) by (rule unpack_symbol)
  ultimately show ?thesis
    by (simp only: char_at_index_chunk [OF assms(1,2)] append_Cons append_Nil)
qed

lemma pack_end: "length bitStr \<le> i \<Longrightarrow> pack bitStr i = []"
  by (subst pack.simps) simp

lemma pack_step:
  assumes "6 \<le> length s"
  shows "pack (pre @ s) (length pre)
         = char_at_index (parseInt2 (take 6 s)) @ pack ((pre @ take 6 s) @ drop 6 s) (length (pre @ take 6 s))"
proof -
  have "pack (pre @ s) (length pre)
        = char_at_index (parseInt2 (substr (pre @ s) (length pre) 6)) @ pack (pre @ s) (length pre + 6)"
  proof -
    from assms have "length pre < length (pre @ s)" by (cases s) simp_all
    then show ?thesis by (subst pack.simps) (simp only: if_True)
  qed
  moreover have "substr (pre @ s) (length pre) 6 = take 6 s" by (simp add: substr_def)
  moreover have "length (pre @ take 6 s) = length pre + 6" using assms by simp
  ultimately show ?thesis by simp
qed

lemma unpack_pack:
  "all_bits s \<Longrightarrow> length s = 6 * n \<Longrightarrow> unpack (pack (pre @ s) (length pre)) = Inr s"
proof (induction n arbitrary: s pre)
  case 0
  then show ?case by (simp add: pack_end)
next
  case (Suc n)
  let ?c = "take 6 s" and ?t = "drop 6 s"
  from Suc.prems have len: "6 \<le> length s" by simp
  have c: "all_bits ?c" "length ?c = 6" using Suc.prems by simp_all
  have t: "all_bits ?t" "length ?t = 6 * n" using Suc.prems by simp_all
  have "unpack (pack ((pre @ ?c) @ ?t) (length (pre @ ?c))) = Inr ?t"
    using t by (rule Suc.IH)
  with c have "unpack (char_at_index (parseInt2 ?c) @ pack ((pre @ ?c) @ ?t) (length (pre @ ?c)))
               = Inr (?c @ ?t)"
    by (rule unpack_chunk)
  then show ?case by (simp add: pack_step [OF len])
qed

lemma pack_alphabet:
  "all_bits s \<Longrightarrow> length s = 6 * n \<Longrightarrow> set (pack (pre @ s) (length pre)) \<subseteq> set BASE64_CHARS"
proof (induction n arbitrary: s pre)
  case 0
  then show ?case by (simp add: pack_end)
next
  case (Suc n)
  let ?c = "take 6 s" and ?t = "drop 6 s"
  from Suc.prems have len: "6 \<le> length s" by simp
  have c: "all_bits ?c" "length ?c = 6" using Suc.prems by simp_all
  have t: "all_bits ?t" "length ?t = 6 * n" using Suc.prems by simp_all
  have ih: "set (pack ((pre @ ?c) @ ?t) (length (pre @ ?c))) \<subseteq> set BASE64_CHARS"
    using t by (rule Suc.IH)
  have "BASE64_CHARS ! nat (bits_value ?c) \<in> set BASE64_CHARS"
    using chunk_value [OF c(2)] by (intro nth_mem) simp
  with ih show ?case
    by (simp add: pack_step [OF len] char_at_index_chunk [OF c])
qed

lemma pack_length:
  "all_bits s \<Longrightarrow> length s = 6 * n \<Longrightarrow> length (pack (pre @ s) (length pre)) = n"
proof (induction n arbitrary: s pre)
  case 0
  then show ?case by (simp add: pack_end)
next
  case (Suc n)
  let ?c = "take 6 s" and ?t = "drop 6 s"
  from Suc.prems have len: "6 \<le> length s" by simp
  have c: "all_bits ?c" "length ?c = 6" using Suc.prems by simp_all
  have t: "all_bits ?t" "length ?t = 6 * n" using Suc.prems by simp_all
  have ih: "length (pack ((pre @ ?c) @ ?t) (length (pre @ ?c))) = n"
    using t by (rule Suc.IH)
  then show ?case
    by (simp add: pack_step [OF len] char_at_index_chunk [OF c])
qed

section \<open>The bit writer and the bit reader\<close>

subsection \<open>The width\<close>

lemma less_num_max_of: "less_num (max_of numbers) k \<longleftrightarrow> (\<forall>num \<in> set numbers. num < k)"
proof (induction numbers)
  case Nil
  show ?case by simp
next
  case (Cons x xs)
  then show ?case by (cases "max_of xs") auto
qed


lemma width_cases:
  "width numbers
   = (if \<forall>num \<in> set numbers. num < 10 then 4
      else if \<forall>num \<in> set numbers. num < 100 then 7 else 9)"
  by (simp add: width_def bits_for_max_def less_num_max_of)

lemma determineBitsPerNumber_short:
  "length numbers \<le> max_arguments \<Longrightarrow> determineBitsPerNumber numbers = Inr (width numbers)"
  by (simp add: determineBitsPerNumber_def math_max_def width_def)

lemma determineBitsPerNumber_long:
  "max_arguments < length numbers \<Longrightarrow> determineBitsPerNumber numbers = Inl CallStackExceeded"
  by (simp add: determineBitsPerNumber_def math_max_def)

lemma width_range: "width numbers \<in> {4, 7, 9}"
  by (simp add: width_cases)

lemma bitsCode_of_width:
  "bitsCode_of (width numbers)
   = Inr (if width numbers = 4 then ''00''
          else if width numbers = 7 then ''01'' else ''10'')"
  using width_range [of numbers] by (auto simp: bitsCode_of_def)

lemma bitsPerNumber_of_bitsCode:
  "bitsCode_of w = Inr code \<Longrightarrow> bitsPerNumber_of code = Inr w"
  by (auto simp: bitsCode_of_def bitsPerNumber_of_def split: if_splits)

lemma bitsCode_of_length: "bitsCode_of w = Inr code \<Longrightarrow> length code = 2 \<and> all_bits code"
  by (auto simp: bitsCode_of_def split: if_splits)

lemma toString2_fits:
  assumes "0 \<le> num" and "num < 2 ^ w" and "0 < w"
  shows "length (toString2 num) \<le> w"
proof -
  from assms have "nat num < 2 ^ w" by (simp add: nat_less_iff)
  with assms(3) have "length (bin_digits (nat num)) \<le> w" by (rule bin_digits_length_le)
  with assms(1) show ?thesis by (simp add: toString2_def)
qed

lemma width_fits:
  assumes "\<forall>num \<in> set numbers. 1 \<le> num \<and> num \<le> 300" and "x \<in> set numbers"
  shows "length (toString2 x) \<le> width numbers"
proof -
  from assms have x: "0 \<le> x" "x \<le> 300" by auto
  consider (a) "\<forall>num \<in> set numbers. num < 10"
    | (b) "\<not> (\<forall>num \<in> set numbers. num < 10)" "\<forall>num \<in> set numbers. num < 100"
    | (c) "\<not> (\<forall>num \<in> set numbers. num < 10)" "\<not> (\<forall>num \<in> set numbers. num < 100)"
    by blast
  then show ?thesis
  proof cases
    case a
    with assms(2) have "x < 2 ^ 4" by auto
    with x(1) have "length (toString2 x) \<le> 4" by (intro toString2_fits) simp_all
    moreover have "width numbers = 4"
      using a by (auto simp: width_cases)
    ultimately show ?thesis by simp
  next
    case b
    with assms(2) have "x < 2 ^ 7" by auto
    with x(1) have "length (toString2 x) \<le> 7" by (intro toString2_fits) simp_all
    moreover have "width numbers = 7"
      using b by (auto simp: width_cases)
    ultimately show ?thesis by simp
  next
    case c
    from x(2) have "x < 2 ^ 9" by simp
    with x(1) have "length (toString2 x) \<le> 9" by (intro toString2_fits) simp_all
    moreover have "width numbers = 9"
      using c by (auto simp: width_cases)
    ultimately show ?thesis by simp
  qed
qed

subsection \<open>The bit string\<close>

lemma toString2_bits: "0 \<le> num \<Longrightarrow> all_bits (toString2 num)"
  by (simp add: toString2_def)

lemma toString2_value: "0 \<le> num \<Longrightarrow> bits_value (toString2 num) = num"
  by (simp add: toString2_def)

lemma number_bits_bits: "\<forall>num \<in> set numbers. 0 \<le> num \<Longrightarrow> all_bits (number_bits w numbers)"
  by (induction numbers) (simp_all add: toString2_bits)

lemma number_bits_length:
  "\<forall>num \<in> set numbers. length (toString2 num) \<le> w
   \<Longrightarrow> length (number_bits w numbers) = length numbers * w"
  by (induction numbers) (simp_all add: padStart_length max_def)

lemma length_field_bits: "all_bits (length_field n)"
  by (simp add: length_field_def)

lemma pad6_eq: "pad6 s = s @ replicate ((6 - length s mod 6) mod 6) (CHR ''0'')"
  by (simp add: pad6_def padEnd_def)

lemma pad6_bits [simp]: "all_bits (pad6 s) = all_bits s"
  by (simp add: pad6_eq)

lemma pad_arith: "(n::nat) + (6 - n mod 6) mod 6 = 6 * ((n + 5) div 6)"
proof -
  define r q where "r = n mod 6" and "q = n div 6"
  have r: "r < 6" by (simp add: r_def)
  have k: "r + (6 - r) mod 6 = 6 * ((r + 5) div 6)"
  proof -
    from r consider "r = 0" | "r = 1" | "r = 2" | "r = 3" | "r = 4" | "r = 5" by linarith
    then show ?thesis by cases simp_all
  qed
  have d: "(n + 5) div 6 = q + (r + 5) div 6"
    by (simp add: r_def q_def div_add1_eq [of n 5 6])
  have "n + (6 - n mod 6) mod 6 = 6 * q + (r + (6 - r) mod 6)"
    by (simp add: r_def q_def)
  also have "\<dots> = 6 * q + 6 * ((r + 5) div 6)" by (simp only: k)
  also have "\<dots> = 6 * ((n + 5) div 6)" by (simp only: d distrib_left)
  finally show ?thesis .
qed

lemma pad6_length: "length (pad6 s) = 6 * ((length s + 5) div 6)"
  by (simp only: pad6_eq length_append length_replicate pad_arith)

lemma bitStr_of_valid:
  assumes "\<forall>num \<in> set numbers. 1 \<le> num \<and> num \<le> 300"
    and "length numbers \<le> max_arguments"
  shows "\<exists>code. bitsCode_of (width numbers) = Inr code
          \<and> bitStr_of numbers
            = Inr (pad6 (length_field (length numbers) @ code
                         @ number_bits (width numbers) numbers))"
proof -
  from assms(1) have "\<not> (\<exists>num \<in> set numbers. num < 1 \<or> num > 300)" by auto
  then show ?thesis
    unfolding bitStr_of_def
    by (simp add: determineBitsPerNumber_short [OF assms(2)] bitsCode_of_width)
qed

lemma bitStr_of_Inr:
  assumes "bitStr_of numbers = Inr bitStr"
  shows "\<forall>num \<in> set numbers. 1 \<le> num \<and> num \<le> 300" and "length numbers \<le> max_arguments"
proof -
  from assms show "\<forall>num \<in> set numbers. 1 \<le> num \<and> num \<le> 300"
    by (auto simp: bitStr_of_def split: if_splits)
  show "length numbers \<le> max_arguments"
  proof (rule ccontr)
    assume "\<not> length numbers \<le> max_arguments"
    then have "determineBitsPerNumber numbers = Inl CallStackExceeded"
      by (simp add: determineBitsPerNumber_long)
    with assms show False by (simp add: bitStr_of_def split: if_splits)
  qed
qed

lemma serialize_unpack:
  assumes "bitStr_of numbers = Inr bitStr" and "all_bits bitStr" and "length bitStr = 6 * n"
  shows "\<exists>s. serialize numbers = Inr s \<and> unpack s = Inr bitStr"
  using unpack_pack [OF assms(2,3), of "[]"] assms(1) by (simp add: serialize_def)

subsection \<open>Reading the numbers back\<close>

lemma parseInt2_number:
  assumes "0 \<le> num" and "length (toString2 num) \<le> w"
  shows "parseInt2 (substr (pre @ padStart (toString2 num) w @ post) (length pre) w) = Num num"
proof -
  have l: "length (padStart (toString2 num) w) = w"
    using assms(2) by (simp add: padStart_length)
  then have "substr (pre @ padStart (toString2 num) w @ post) (length pre) w
             = padStart (toString2 num) w"
    by (simp add: substr_def)
  moreover have "padStart (toString2 num) w \<noteq> []"
    by (simp add: padStart_def toString2_def)
  moreover have "all_bits (padStart (toString2 num) w)"
    using assms(1) by (simp add: toString2_bits)
  ultimately show ?thesis
    using assms(1) by (simp add: parseInt2_bits toString2_value)
qed

lemma read_numbers_number_bits:
  "\<forall>num \<in> set numbers. 0 \<le> num \<and> length (toString2 num) \<le> w
   \<Longrightarrow> read_numbers (pre @ number_bits w numbers @ post) w (length pre) (length numbers)
       = map Num numbers"
proof (induction numbers arbitrary: pre)
  case Nil
  show ?case by simp
next
  case (Cons x xs)
  let ?e = "padStart (toString2 x) w"
  from Cons.prems have x: "0 \<le> x" "length (toString2 x) \<le> w" by simp_all
  have l: "length ?e = w" using x(2) by (simp add: padStart_length)
  have first: "parseInt2 (substr (pre @ ?e @ number_bits w xs @ post) (length pre) w) = Num x"
    using x by (rule parseInt2_number)
  have "read_numbers ((pre @ ?e) @ number_bits w xs @ post) w (length (pre @ ?e)) (length xs)
        = map Num xs"
    using Cons.prems by (intro Cons.IH) simp
  then have rest: "read_numbers (pre @ ?e @ number_bits w xs @ post) w (length pre + w) (length xs)
        = map Num xs"
    by (simp add: l)
  show ?case by (simp add: first rest)
qed

lemma read_numbers_length [simp]: "length (read_numbers bitStr w pos n) = n"
  by (induction n arbitrary: pos) simp_all

subsection \<open>Reading the header back\<close>

lemma length_field_short:
  assumes "n < 64"
  shows "\<exists>p. length_field n = CHR ''0'' # p \<and> length p = 6 \<and> all_bits p \<and> bits_value p = int n"
proof -
  from assms have "length (bin_digits n) \<le> 6" by (intro bin_digits_length_le) simp_all
  then have "length (padStart (bin_digits n) 6) = 6" by (simp add: padStart_length)
  with assms show ?thesis by (simp add: length_field_def)
qed

lemma length_field_long:
  assumes "64 \<le> n" and "n < 1024"
  shows "\<exists>p. length_field n = CHR ''1'' # p \<and> length p = 10 \<and> all_bits p \<and> bits_value p = int n"
proof -
  from assms have "length (bin_digits n) \<le> 10" by (intro bin_digits_length_le) simp_all
  then have "length (padStart (bin_digits n) 10) = 10" by (simp add: padStart_length)
  with assms show ?thesis by (simp add: length_field_def)
qed

lemma read_bits_short:
  assumes "length p = 6" and "all_bits p" and "length code = 2"
    and "bitsPerNumber_of code = Inr w"
  shows "read_bits ((CHR ''0'' # p) @ code @ rest)
         = Inr (read_numbers ((CHR ''0'' # p) @ code @ rest) w 9 (nat (bits_value p)))"
proof -
  from assms(1) have ne: "p \<noteq> []" by auto
  have "substr (CHR ''0'' # p @ code @ rest) 1 6 = p"
    using assms(1) by (simp add: substr_def)
  then have cnt: "read_count (CHR ''0'' # p @ code @ rest) = (Num (bits_value p), 7)"
    by (simp add: read_count_def flag_is_0_def parseInt2_bits [OF assms(2) ne])
  have cd: "substr (CHR ''0'' # p @ code @ rest) 7 2 = code"
    using assms(1,3) by (simp add: substr_def)
  show ?thesis
    unfolding read_bits_def append_Cons cnt by (simp add: cd assms(4) rounds_def)
qed

lemma read_bits_long:
  assumes "length p = 10" and "all_bits p" and "length code = 2"
    and "bitsPerNumber_of code = Inr w"
  shows "read_bits ((CHR ''1'' # p) @ code @ rest)
         = Inr (read_numbers ((CHR ''1'' # p) @ code @ rest) w 13 (nat (bits_value p)))"
proof -
  from assms(1) have ne: "p \<noteq> []" by auto
  have "substr (CHR ''1'' # p @ code @ rest) 1 10 = p"
    using assms(1) by (simp add: substr_def)
  then have cnt: "read_count (CHR ''1'' # p @ code @ rest) = (Num (bits_value p), 11)"
    by (simp add: read_count_def flag_is_0_def parseInt2_bits [OF assms(2) ne])
  have cd: "substr (CHR ''1'' # p @ code @ rest) 11 2 = code"
    using assms(1,3) by (simp add: substr_def)
  show ?thesis
    unfolding read_bits_def append_Cons cnt by (simp add: cd assms(4) rounds_def)
qed

text \<open>The bit reader inverts the bit writer while the count fits its field.\<close>

lemma read_bits_written:
  assumes v: "\<forall>num \<in> set numbers. 0 \<le> num \<and> length (toString2 num) \<le> w"
    and n: "length numbers < 1024"
    and code: "bitsCode_of w = Inr code"
  shows "read_bits (length_field (length numbers) @ code @ number_bits w numbers @ post)
         = Inr (map Num numbers)"
proof -
  from code have c2: "length code = 2" and bw: "bitsPerNumber_of code = Inr w"
    by (simp_all add: bitsCode_of_length bitsPerNumber_of_bitsCode)
  show ?thesis
  proof (cases "length numbers < 64")
    case True
    then obtain p where p: "length_field (length numbers) = CHR ''0'' # p" "length p = 6"
      "all_bits p" "bits_value p = int (length numbers)"
      using length_field_short by blast
    let ?pre = "(CHR ''0'' # p) @ code"
    have "read_numbers (?pre @ number_bits w numbers @ post) w (length ?pre) (length numbers)
          = map Num numbers"
      using v by (rule read_numbers_number_bits)
    moreover have "length ?pre = 9" using p(2) c2 by simp
    ultimately have "read_numbers ((CHR ''0'' # p) @ code @ number_bits w numbers @ post) w 9
                       (nat (bits_value p)) = map Num numbers"
      using p(4) by simp
    then show ?thesis
      unfolding p(1) using read_bits_short [OF p(2,3) c2 bw] by simp
  next
    case False
    with n obtain p where p: "length_field (length numbers) = CHR ''1'' # p" "length p = 10"
      "all_bits p" "bits_value p = int (length numbers)"
      using length_field_long [of "length numbers"] by auto
    let ?pre = "(CHR ''1'' # p) @ code"
    have "read_numbers (?pre @ number_bits w numbers @ post) w (length ?pre) (length numbers)
          = map Num numbers"
      using v by (rule read_numbers_number_bits)
    moreover have "length ?pre = 13" using p(2) c2 by simp
    ultimately have "read_numbers ((CHR ''1'' # p) @ code @ number_bits w numbers @ post) w 13
                       (nat (bits_value p)) = map Num numbers"
      using p(4) by simp
    then show ?thesis
      unfolding p(1) using read_bits_long [OF p(2,3) c2 bw] by simp
  qed
qed

lemma roundtrip:
  assumes v: "\<forall>num \<in> set numbers. 1 \<le> num \<and> num \<le> 300"
    and n: "length numbers < 1024"
  shows "\<exists>s. serialize numbers = Inr s \<and> deserialize s = Inr (map Num numbers)"
proof -
  let ?w = "width numbers"
  from n have m: "length numbers \<le> max_arguments" by (simp add: max_arguments_def)
  from bitStr_of_valid [OF v m] obtain code where
    code: "bitsCode_of ?w = Inr code" and
    b: "bitStr_of numbers = Inr (pad6 (length_field (length numbers) @ code @ number_bits ?w numbers))"
    by blast
  let ?u = "length_field (length numbers) @ code @ number_bits ?w numbers"
  have fit: "\<forall>num \<in> set numbers. 0 \<le> num \<and> length (toString2 num) \<le> ?w"
    using v width_fits [OF v] by auto
  have bits: "all_bits (pad6 ?u)"
    using fit code by (simp add: length_field_bits bitsCode_of_length number_bits_bits)
  from serialize_unpack [OF b bits pad6_length] obtain s where
    s: "serialize numbers = Inr s" "unpack s = Inr (pad6 ?u)" by blast
  have "read_bits (pad6 ?u) = Inr (map Num numbers)"
    using read_bits_written [OF fit n code] by (simp add: pad6_eq)
  with s show ?thesis by (simp add: deserialize_def)
qed

section \<open>The alphabet check and counts beyond the length field\<close>

lemma bitStr_bits:
  assumes "bitStr_of numbers = Inr bitStr"
  shows "all_bits bitStr"
proof -
  from assms have v: "\<forall>num \<in> set numbers. 1 \<le> num \<and> num \<le> 300"
    and m: "length numbers \<le> max_arguments"
    by (rule bitStr_of_Inr)+
  from v have nn: "\<forall>num \<in> set numbers. 0 \<le> num" by auto
  from bitStr_of_valid [OF v m] assms obtain code where
    "bitsCode_of (width numbers) = Inr code"
    "bitStr = pad6 (length_field (length numbers) @ code
                    @ number_bits (width numbers) numbers)"
    by auto
  then show ?thesis
    using nn by (simp add: length_field_bits bitsCode_of_length number_bits_bits)
qed

lemma unpack_bits: "unpack serialized = Inr bitStr \<Longrightarrow> all_bits bitStr"
proof (induction serialized arbitrary: bitStr)
  case Nil
  then show ?case by simp
next
  case (Cons ch rest)
  let ?i = "indexOf BASE64_CHARS ch"
  from Cons.prems have i: "?i \<noteq> - 1"
    by (auto simp: Let_def split: if_splits)
  with Cons.prems obtain bits where
    r: "unpack rest = Inr bits" and b: "bitStr = padStart (toString2 ?i) 6 @ bits"
    by (auto simp: Let_def split: sum.splits)
  from i have "ch \<in> set BASE64_CHARS" by (simp add: indexOf_minus1)
  then have "0 \<le> ?i" unfolding indexOf_def by (rule index_from_in)
  then have "all_bits (toString2 ?i)" by (rule toString2_bits)
  with Cons.IH [OF r] b show ?case by simp
qed

lemma unpack_error:
  "unpack serialized
   = (case find (\<lambda>ch. ch \<notin> set BASE64_CHARS) serialized of
        Some ch \<Rightarrow> Inl (InvalidCharacter ch)
      | None \<Rightarrow> unpack serialized)"
proof (induction serialized)
  case Nil
  show ?case by simp
next
  case (Cons ch rest)
  show ?case
  proof (cases "ch \<in> set BASE64_CHARS")
    case True
    then have i: "indexOf BASE64_CHARS ch \<noteq> - 1" by (simp add: indexOf_minus1)
    show ?thesis
    proof (cases "find (\<lambda>ch. ch \<notin> set BASE64_CHARS) rest")
      case None
      with True show ?thesis by simp
    next
      case (Some c)
      with Cons.IH have "unpack rest = Inl (InvalidCharacter c)" by simp
      with True Some i show ?thesis by (simp add: Let_def)
    qed
  next
    case False
    then have "indexOf BASE64_CHARS ch = - 1" by (simp add: indexOf_minus1)
    with False show ?thesis by simp
  qed
qed

lemma unpack_total:
  "set serialized \<subseteq> set BASE64_CHARS \<Longrightarrow> \<exists>bitStr. unpack serialized = Inr bitStr"
proof (induction serialized)
  case Nil
  show ?case by simp
next
  case (Cons ch rest)
  then have "indexOf BASE64_CHARS ch \<noteq> - 1" by (simp add: indexOf_minus1)
  moreover from Cons obtain bits where "unpack rest = Inr bits" by auto
  ultimately show ?case by (simp add: Let_def)
qed

lemma serialize_valid:
  assumes v: "\<forall>num \<in> set numbers. 1 \<le> num \<and> num \<le> 300"
    and m: "length numbers \<le> max_arguments"
  shows "\<exists>code s. bitsCode_of (width numbers) = Inr code
           \<and> bitStr_of numbers
               = Inr (pad6 (length_field (length numbers) @ code
                            @ number_bits (width numbers) numbers))
           \<and> serialize numbers = Inr s
           \<and> unpack s
               = Inr (pad6 (length_field (length numbers) @ code
                            @ number_bits (width numbers) numbers))"
proof -
  let ?w = "width numbers"
  from bitStr_of_valid [OF v m] obtain code where
    code: "bitsCode_of ?w = Inr code" and
    b: "bitStr_of numbers = Inr (pad6 (length_field (length numbers) @ code @ number_bits ?w numbers))"
    by blast
  from b have "all_bits (pad6 (length_field (length numbers) @ code @ number_bits ?w numbers))"
    by (rule bitStr_bits)
  from serialize_unpack [OF b this pad6_length] code b show ?thesis by blast
qed

lemma bits_value_hd1:
  assumes "s \<noteq> []" and "hd s = CHR ''1''"
  shows "2 ^ (length s - 1) \<le> bits_value s"
proof -
  from assms obtain t where s: "s = [CHR ''1''] @ t" by (cases s) auto
  have "bits_value ([CHR ''1''] @ t) = bits_value [CHR ''1''] * 2 ^ length t + bits_value t"
    by (rule bits_value_append)
  moreover have "bits_value [CHR ''1''] = 1" by (simp add: bits_value_def)
  ultimately show ?thesis using bits_value_nonneg [of t] s by simp
qed

lemma length_field_huge:
  assumes "1024 \<le> n"
  shows "length_field n = CHR ''1'' # bin_digits n" and "10 < length (bin_digits n)"
proof -
  from assms have "2 ^ 10 \<le> n" by simp
  then show l: "10 < length (bin_digits n)" by (rule bin_digits_length_gt)
  from assms l show "length_field n = CHR ''1'' # bin_digits n"
    by (simp add: length_field_def padStart_def)
qed

lemma read_count_huge:
  assumes "1024 \<le> n"
  shows "\<exists>k. read_count (length_field n @ rest) = (Num k, 11) \<and> 512 \<le> k \<and> k < 1024"
proof -
  let ?d = "bin_digits n"
  let ?p = "take 10 ?d"
  from length_field_huge [OF assms] have lf: "length_field n = CHR ''1'' # ?d"
    and l: "10 < length ?d" by simp_all
  from l have lp: "length ?p = 10" by simp
  then have ne: "?p \<noteq> []" by auto
  have bp: "all_bits ?p" by simp
  from assms have "hd ?d = CHR ''1''" by (intro bin_digits_hd) simp
  then have "hd ?p = CHR ''1''" using l by (cases ?d) auto
  with ne have "2 ^ (length ?p - 1) \<le> bits_value ?p" by (rule bits_value_hd1)
  then have lo: "512 \<le> bits_value ?p" unfolding lp by simp
  have "bits_value ?p < 2 ^ length ?p" by (rule bits_value_bound)
  then have hi: "bits_value ?p < 1024" unfolding lp by simp
  have "substr (CHR ''1'' # ?d @ rest) 1 10 = ?p" using l by (simp add: substr_def)
  then have "read_count (length_field n @ rest) = (Num (bits_value ?p), 11)"
    by (simp add: lf read_count_def flag_is_0_def parseInt2_bits [OF bp ne])
  with lo hi show ?thesis by blast
qed

lemma read_bits_result:
  "read_bits bitStr = Inl InvalidBitsCode
   \<or> (\<exists>ys. read_bits bitStr = Inr ys \<and> length ys = rounds (fst (read_count bitStr)))"
proof -
  obtain count pos where c: "read_count bitStr = (count, pos)" by (cases "read_count bitStr")
  show ?thesis
  proof (cases "bitsPerNumber_of (substr bitStr pos 2)")
    case (Inl e)
    then have "e = InvalidBitsCode" by (auto simp: bitsPerNumber_of_def split: if_splits)
    with Inl c show ?thesis by (simp add: read_bits_def)
  next
    case (Inr w)
    with c show ?thesis by (simp add: read_bits_def)
  qed
qed

lemma decode_huge:
  assumes v: "\<forall>num \<in> set numbers. 1 \<le> num \<and> num \<le> 300" and n: "1024 \<le> length numbers"
    and m: "length numbers \<le> max_arguments"
  shows "\<exists>s. serialize numbers = Inr s
           \<and> (deserialize s = Inl InvalidBitsCode
              \<or> (\<exists>ys. deserialize s = Inr ys \<and> 512 \<le> length ys \<and> length ys < 1024))"
proof -
  let ?w = "width numbers"
  from serialize_valid [OF v m] obtain code s where
    s: "serialize numbers = Inr s" and
    u: "unpack s = Inr (pad6 (length_field (length numbers) @ code @ number_bits ?w numbers))"
    by blast
  let ?b = "pad6 (length_field (length numbers) @ code @ number_bits ?w numbers)"
  have "?b = length_field (length numbers)
             @ (code @ number_bits ?w numbers
                @ replicate ((6 - length (length_field (length numbers) @ code @ number_bits ?w numbers) mod 6) mod 6) (CHR ''0''))"
    by (simp add: pad6_eq)
  with read_count_huge [OF n] obtain k where
    k: "read_count ?b = (Num k, 11)" "512 \<le> k" "k < 1024" by metis
  then have r: "512 \<le> rounds (fst (read_count ?b))" "rounds (fst (read_count ?b)) < 1024"
    by (simp_all add: rounds_def)
  have d: "deserialize s = read_bits ?b" by (simp add: deserialize_def u)
  from read_bits_result [of ?b] r have
    "read_bits ?b = Inl InvalidBitsCode
     \<or> (\<exists>ys. read_bits ?b = Inr ys \<and> 512 \<le> length ys \<and> length ys < 1024)"
    by auto
  with s d show ?thesis by auto
qed

lemma decode_encode_huge:
  assumes v: "\<forall>num \<in> set numbers. 1 \<le> num \<and> num \<le> 300" and n: "1024 \<le> length numbers"
    and m: "length numbers \<le> max_arguments"
  shows "decode_encode numbers = Inl InvalidBitsCode
         \<or> (\<exists>ys. decode_encode numbers = Inr ys \<and> 512 \<le> length ys \<and> length ys < 1024)"
  using decode_huge [OF v n m] by (auto simp: decode_encode_def)

lemma decode_encode_roundtrip:
  assumes v: "\<forall>num \<in> set numbers. 1 \<le> num \<and> num \<le> 300" and n: "length numbers < 1024"
  shows "decode_encode numbers = Inr (map Num numbers)"
  using roundtrip [OF v n] by (auto simp: decode_encode_def)

section \<open>Lengths and header fields\<close>

lemma length_field_length:
  "length (length_field n) + 2 = header_bits n"
proof -
  consider "n < 64" | "64 \<le> n" "n < 1024" | "1024 \<le> n" by linarith
  then show ?thesis
  proof cases
    case 1
    then obtain p where "length_field n = CHR ''0'' # p" "length p = 6"
      using length_field_short by blast
    with 1 show ?thesis by (simp add: header_bits_def)
  next
    case 2
    then obtain p where "length_field n = CHR ''1'' # p" "length p = 10"
      using length_field_long by blast
    with 2 show ?thesis by (simp add: header_bits_def)
  next
    case 3
    with length_field_huge(1) [OF 3] show ?thesis by (simp add: header_bits_def)
  qed
qed

lemma read_count_short:
  assumes "n < 64"
  shows "read_count (length_field n @ rest) = (Num (int n), 7)"
proof -
  from length_field_short [OF assms] obtain p where
    p: "length_field n = CHR ''0'' # p" "length p = 6" "all_bits p" "bits_value p = int n"
    by blast
  from p(2) have ne: "p \<noteq> []" by auto
  have "substr (CHR ''0'' # p @ rest) 1 6 = p" using p(2) by (simp add: substr_def)
  then show ?thesis
    by (simp add: p(1,4) read_count_def flag_is_0_def parseInt2_bits [OF p(3) ne])
qed

lemma read_count_long:
  assumes "64 \<le> n" and "n < 1024"
  shows "read_count (length_field n @ rest) = (Num (int n), 11)"
proof -
  from length_field_long [OF assms] obtain p where
    p: "length_field n = CHR ''1'' # p" "length p = 10" "all_bits p" "bits_value p = int n"
    by blast
  from p(2) have ne: "p \<noteq> []" by auto
  have "substr (CHR ''1'' # p @ rest) 1 10 = p" using p(2) by (simp add: substr_def)
  then show ?thesis
    by (simp add: p(1,4) read_count_def flag_is_0_def parseInt2_bits [OF p(3) ne])
qed

lemma pad6_append: "\<exists>z. pad6 (a @ b) = a @ b @ z"
  by (simp add: pad6_eq)

lemma serialize_length:
  assumes v: "\<forall>num \<in> set numbers. 1 \<le> num \<and> num \<le> 300"
    and m: "length numbers \<le> max_arguments"
  shows "\<exists>bitStr s. bitStr_of numbers = Inr bitStr \<and> serialize numbers = Inr s
           \<and> set s \<subseteq> set BASE64_CHARS
           \<and> length bitStr = 6 * length s
           \<and> length s = (header_bits (length numbers)
                          + length numbers * width numbers + 5) div 6"
proof -
  let ?w = "width numbers"
  from bitStr_of_valid [OF v m] obtain code where
    code: "bitsCode_of ?w = Inr code" and
    b: "bitStr_of numbers = Inr (pad6 (length_field (length numbers) @ code @ number_bits ?w numbers))"
    by blast
  let ?u = "length_field (length numbers) @ code @ number_bits ?w numbers"
  let ?n = "(length ?u + 5) div 6"
  have bits: "all_bits (pad6 ?u)" using b by (rule bitStr_bits)
  have len: "length (pad6 ?u) = 6 * ?n" by (rule pad6_length)
  have s: "serialize numbers = Inr (pack (pad6 ?u) 0)" by (simp add: serialize_def b)
  have a: "set (pack (pad6 ?u) 0) \<subseteq> set BASE64_CHARS"
    using pack_alphabet [OF bits len, of "[]"] by simp
  have l: "length (pack (pad6 ?u) 0) = ?n"
    using pack_length [OF bits len, of "[]"] by simp
  have "\<forall>num \<in> set numbers. length (toString2 num) \<le> ?w"
    using width_fits [OF v] by simp
  then have "length (number_bits ?w numbers) = length numbers * ?w"
    by (rule number_bits_length)
  moreover have "length code = 2" using code by (simp add: bitsCode_of_length)
  ultimately have "length ?u = header_bits (length numbers) + length numbers * ?w"
    using length_field_length [of "length numbers"] by simp
  with b s a l len show ?thesis by simp
qed


lemma bitStr_of_error:
  "bitStr_of numbers = Inl e
   \<longleftrightarrow> (e = OutOfRange \<and> (\<exists>num \<in> set numbers. num < 1 \<or> 300 < num))
     \<or> (e = CallStackExceeded \<and> \<not> (\<exists>num \<in> set numbers. num < 1 \<or> 300 < num)
        \<and> max_arguments < length numbers)"
proof (cases "\<exists>num \<in> set numbers. num < 1 \<or> 300 < num")
  case True
  then show ?thesis by (auto simp: bitStr_of_def)
next
  case False
  then have v: "\<forall>num \<in> set numbers. 1 \<le> num \<and> num \<le> 300" by auto
  show ?thesis
  proof (cases "length numbers \<le> max_arguments")
    case True
    from bitStr_of_valid [OF v True] False True show ?thesis by auto
  next
    case long: False
    then have "determineBitsPerNumber numbers = Inl CallStackExceeded"
      by (simp add: determineBitsPerNumber_long)
    with False have "bitStr_of numbers = Inl CallStackExceeded"
      by (auto simp: bitStr_of_def)
    with False long show ?thesis by auto
  qed
qed

lemma serialize_error:
  "serialize numbers = Inl e
   \<longleftrightarrow> (e = OutOfRange \<and> (\<exists>num \<in> set numbers. num < 1 \<or> 300 < num))
     \<or> (e = CallStackExceeded \<and> \<not> (\<exists>num \<in> set numbers. num < 1 \<or> 300 < num)
        \<and> max_arguments < length numbers)"
  using bitStr_of_error [of numbers e]
  by (cases "bitStr_of numbers") (auto simp: serialize_def)

lemma unpack_Inl: "unpack serialized = Inl e \<Longrightarrow> \<exists>ch. e = InvalidCharacter ch"
  by (induction serialized) (auto simp: Let_def split: if_splits sum.splits)

lemma read_bits_accepts:
  assumes "substr bitStr (snd (read_count bitStr)) 2 \<in> {''00'', ''01'', ''10''}"
  shows "\<exists>ys. read_bits bitStr = Inr ys \<and> length ys = rounds (fst (read_count bitStr))"
proof -
  from assms have "bitsPerNumber_of (substr bitStr (snd (read_count bitStr)) 2) \<noteq> Inl InvalidBitsCode"
    by (auto simp: bitsPerNumber_of_def)
  then have "read_bits bitStr \<noteq> Inl InvalidBitsCode"
    by (cases "read_count bitStr")
       (auto simp: read_bits_def bitsPerNumber_of_def split: if_splits)
  with read_bits_result [of bitStr] show ?thesis by blast
qed

text \<open>The smallest input beyond the length field: 1024 times the number 1 comes back as
  512 numbers.\<close>

lemma read_bits_1024:
  "\<exists>ys. read_bits (length_field 1024 @ ''00'' @ rest) = Inr ys \<and> length ys = 512"
proof -
  define b where "b = length_field 1024 @ ''00'' @ rest"
  have lf: "length_field 1024 = ''110000000000''" by code_simp
  have c: "read_count b = (Num 512, 11)"
    by (simp add: b_def lf read_count_def flag_is_0_def substr_def parseInt2_def is_bit_def)
  have s: "substr b 11 2 = ''00''"
    by (simp add: b_def lf substr_def)
  have "read_bits b = Inr (read_numbers b 4 13 512)"
    unfolding read_bits_def c by (simp add: s bitsPerNumber_of_def rounds_def)
  then show ?thesis unfolding b_def by simp
qed

lemma decode_encode_1024_ones:
  "\<exists>ys. decode_encode (replicate 1024 1) = Inr ys \<and> length ys = 512"
proof -
  have v: "\<forall>num \<in> set (replicate 1024 (1::int)). 1 \<le> num \<and> num \<le> 300" by simp
  have w: "width (replicate 1024 1) = 4"
    by (simp add: width_cases)
  have c: "bitsCode_of 4 = Inr ''00''" by (simp add: bitsCode_of_def)
  have m: "length (replicate 1024 (1::int)) \<le> max_arguments" by (simp add: max_arguments_def)
  from serialize_valid [OF v m] obtain s where
    s: "serialize (replicate 1024 1) = Inr s" and
    u: "unpack s = Inr (pad6 (length_field 1024 @ ''00'' @ number_bits 4 (replicate 1024 1)))"
    by (auto simp: w c)
  obtain z where "pad6 (length_field 1024 @ ''00'' @ number_bits 4 (replicate 1024 1))
                  = length_field 1024 @ ''00'' @ (number_bits 4 (replicate 1024 1) @ z)"
    using pad6_append [of "length_field 1024" "''00'' @ number_bits 4 (replicate 1024 1)"]
    by auto
  with read_bits_1024 [of "number_bits 4 (replicate 1024 1) @ z"] s u show ?thesis
    by (simp add: decode_encode_def deserialize_def)
qed

lemma bitStr_of_prefix:
  assumes "\<forall>num \<in> set numbers. 1 \<le> num \<and> num \<le> 300"
    and "length numbers \<le> max_arguments"
  shows "\<exists>rest. bitStr_of numbers = Inr (length_field (length numbers) @ rest)"
proof -
  from bitStr_of_valid [OF assms] obtain code where
    b: "bitStr_of numbers = Inr (pad6 (length_field (length numbers) @ code
          @ number_bits (width numbers) numbers))"
    by blast
  obtain z where "pad6 (length_field (length numbers) @ code
          @ number_bits (width numbers) numbers)
        = length_field (length numbers)
          @ (code @ number_bits (width numbers) numbers) @ z"
    using pad6_append [of "length_field (length numbers)"
        "code @ number_bits (width numbers) numbers"]
    by auto
  with b show ?thesis by auto
qed

text \<open>1025 times the number 100: the last digit of the count and the first digit of the
  width code 10 are read as the code 11.\<close>

lemma read_bits_1025:
  "read_bits (length_field 1025 @ ''10'' @ rest) = Inl InvalidBitsCode"
proof -
  define b where "b = length_field 1025 @ ''10'' @ rest"
  have lf: "length_field 1025 = ''110000000001''" by code_simp
  have c: "read_count b = (Num 512, 11)"
    by (simp add: b_def lf read_count_def flag_is_0_def substr_def parseInt2_def is_bit_def)
  have s: "substr b 11 2 = ''11''"
    by (simp add: b_def lf substr_def)
  have "read_bits b = Inl InvalidBitsCode"
    unfolding read_bits_def c by (simp add: s bitsPerNumber_of_def)
  then show ?thesis unfolding b_def by simp
qed

lemma decode_encode_1025_hundreds:
  "decode_encode (replicate 1025 100) = Inl InvalidBitsCode"
proof -
  have v: "\<forall>num \<in> set (replicate 1025 (100::int)). 1 \<le> num \<and> num \<le> 300" by simp
  have w: "width (replicate 1025 100) = 9"
    by (simp add: width_cases)
  have c: "bitsCode_of 9 = Inr ''10''" by (simp add: bitsCode_of_def)
  have m: "length (replicate 1025 (100::int)) \<le> max_arguments" by (simp add: max_arguments_def)
  from serialize_valid [OF v m] obtain s where
    s: "serialize (replicate 1025 100) = Inr s" and
    u: "unpack s = Inr (pad6 (length_field 1025 @ ''10'' @ number_bits 9 (replicate 1025 100)))"
    by (auto simp: w c)
  obtain z where "pad6 (length_field 1025 @ ''10'' @ number_bits 9 (replicate 1025 100))
                  = length_field 1025 @ ''10'' @ (number_bits 9 (replicate 1025 100) @ z)"
    using pad6_append [of "length_field 1025" "''10'' @ number_bits 9 (replicate 1025 100)"]
    by auto
  with read_bits_1025 [of "number_bits 9 (replicate 1025 100) @ z"] s u show ?thesis
    by (simp add: decode_encode_def deserialize_def)
qed

text \<open>130000 times the number 1: more than one call takes.\<close>

lemma too_long_130000:
  "determineBitsPerNumber (replicate 130000 1) = Inl CallStackExceeded"
  "bitStr_of (replicate 130000 1) = Inl CallStackExceeded"
  "serialize (replicate 130000 1) = Inl CallStackExceeded"
proof -
  have l: "max_arguments < length (replicate 130000 (1::int))" by (simp add: max_arguments_def)
  then show "determineBitsPerNumber (replicate 130000 1) = Inl CallStackExceeded"
    by (rule determineBitsPerNumber_long)
  from l show "bitStr_of (replicate 130000 1) = Inl CallStackExceeded"
    by (simp add: bitStr_of_error)
  from l show "serialize (replicate 130000 1) = Inl CallStackExceeded"
    by (simp add: serialize_error)
qed

section \<open>The claims\<close>

text \<open>
  C1 (as amended). For every sequence whose elements all lie in [1,300] and whose length
  is at least 1 and at most 1023, \<open>deserialize (serialize S)\<close> is \<open>S\<close>: the same values
  in the same order, hence the same length. The bound 1023 is what the claim lacks: the
  length field has 10 binary digits.
\<close>

theorem roundtrip_up_to_1023:
  assumes "\<forall>num \<in> set numbers. 1 \<le> num \<and> num \<le> 300"
    and "1 \<le> length numbers" and "length numbers \<le> 1023"
  shows "decode_encode numbers = Inr (map Num numbers)"
  using assms by (intro decode_encode_roundtrip) simp_all

theorem roundtrip_up_to_1023_witness:
  "decode_encode [1, 2, 3] = Inr (map Num [1, 2, 3])"
  using roundtrip_up_to_1023 [of "[1, 2, 3]"] by simp

text \<open>
  C1 as stated fails: 1024 times the number 1 is a sequence of elements in [1,300] of
  length at least 1, and it is not what comes back.
\<close>

theorem roundtrip_fails_at_1024:
  "decode_encode (replicate 1024 1) \<noteq> Inr (map Num (replicate 1024 1))"
proof
  assume a: "decode_encode (replicate 1024 1) = Inr (map Num (replicate 1024 1))"
  have "\<forall>num \<in> set (replicate 1024 (1::int)). 1 \<le> num \<and> num \<le> 300" by simp
  moreover have "1024 \<le> length (replicate 1024 (1::int))" by simp
  moreover have "length (replicate 1024 (1::int)) \<le> max_arguments"
    by (simp add: max_arguments_def)
  ultimately have "decode_encode (replicate 1024 1) = Inl InvalidBitsCode
    \<or> (\<exists>ys. decode_encode (replicate 1024 1) = Inr ys \<and> 512 \<le> length ys \<and> length ys < 1024)"
    by (rule decode_encode_huge)
  with a show False by auto
qed

text \<open>
  C2 (as amended). For every sequence whose elements all lie in [1,300] and whose length
  is at least 1024 and at most \<open>max_arguments\<close>, \<open>serialize\<close> raises no error, and
  \<open>deserialize (serialize S)\<close> is never a sequence of the length of \<open>S\<close>: the reader
  takes the first ten digits of the longer count as the count, so that it either returns
  between 512 and 1023 numbers or, finding the width code 11 where the count's last
  digits are, raises the width-code error.
\<close>

theorem long_input_accepted_count_lost:
  assumes "\<forall>num \<in> set numbers. 1 \<le> num \<and> num \<le> 300" and "1024 \<le> length numbers"
    and "length numbers \<le> max_arguments"
  shows "(\<exists>s. serialize numbers = Inr s)
         \<and> (\<forall>ys. decode_encode numbers = Inr ys \<longrightarrow> length ys \<noteq> length numbers)
         \<and> (decode_encode numbers = Inl InvalidBitsCode
            \<or> (\<exists>ys. decode_encode numbers = Inr ys \<and> 512 \<le> length ys \<and> length ys < 1024))"
proof -
  from decode_huge [OF assms] have "\<exists>s. serialize numbers = Inr s" by blast
  moreover note h = decode_encode_huge [OF assms]
  moreover from h assms(2)
  have "\<forall>ys. decode_encode numbers = Inr ys \<longrightarrow> length ys \<noteq> length numbers" by auto
  ultimately show ?thesis by blast
qed

theorem long_input_accepted_count_lost_witness:
  "(\<exists>s. serialize (replicate 1024 1) = Inr s)
   \<and> \<not> (\<exists>ys. decode_encode (replicate 1024 1) = Inr ys \<and> length ys = 1024)
   \<and> (\<exists>ys. decode_encode (replicate 1024 1) = Inr ys \<and> length ys = 512)"
proof -
  have "length (replicate 1024 (1::int)) \<le> max_arguments" by (simp add: max_arguments_def)
  with long_input_accepted_count_lost [of "replicate 1024 1"] decode_encode_1024_ones
  show ?thesis by simp
qed

text \<open>
  C2 as stated fails twice. 130000 times the number 1 is in range and longer than 1024,
  and \<open>serialize\<close> raises an error on it: line 26 passes more arguments than a call takes.
  And on 1025 times the number 100 \<open>deserialize (serialize S)\<close> is no sequence of
  another length: it raises the width-code error.
\<close>

theorem long_input_rejected_or_decode_fails:
  "serialize (replicate 130000 1) = Inl CallStackExceeded
   \<and> decode_encode (replicate 1025 100) = Inl InvalidBitsCode"
  using too_long_130000(3) decode_encode_1025_hundreds by (rule conjI)




text \<open>
  C4. \<open>serialize\<close> raises the range error exactly when some element lies outside
  [1,300]. The check comes first: with such an element not even the bit string exists,
  whatever the other elements are and however many, so there is no partial output.
  \<open>serialize [0]\<close> and \<open>serialize [301]\<close> raise the range error.
\<close>

theorem range_error_iff_out_of_range:
  "(serialize numbers = Inl OutOfRange \<longleftrightarrow> (\<exists>num \<in> set numbers. num < 1 \<or> 300 < num))
   \<and> (bitStr_of numbers = Inl OutOfRange \<longleftrightarrow> (\<exists>num \<in> set numbers. num < 1 \<or> 300 < num))
   \<and> serialize [0] = Inl OutOfRange
   \<and> serialize [301] = Inl OutOfRange"
  by (simp add: serialize_error bitStr_of_error)

theorem range_error_iff_out_of_range_witness:
  "serialize [5, 0, 7] = Inl OutOfRange \<and> bitStr_of [5, 0, 7] = Inl OutOfRange
   \<and> serialize [5, 300, 1] \<noteq> Inl OutOfRange"
  using range_error_iff_out_of_range [of "[5, 0, 7]"]
    range_error_iff_out_of_range [of "[5, 300, 1]"]
  by simp

text \<open>
  C5. Whenever the input of \<open>deserialize\<close> has a character outside the alphabet,
  \<open>deserialize\<close> raises the invalid-character error, and the error carries the first such
  character. \<open>deserialize ''#''\<close> raises it with \<open>#\<close>.
\<close>

theorem invalid_character_error:
  "((\<exists>ch \<in> set serialized. ch \<notin> set BASE64_CHARS) \<longrightarrow>
      (\<exists>ch. find (\<lambda>ch. ch \<notin> set BASE64_CHARS) serialized = Some ch
            \<and> deserialize serialized = Inl (InvalidCharacter ch)))
   \<and> deserialize ''#'' = Inl (InvalidCharacter (CHR ''#''))"
proof (intro conjI impI)
  assume "\<exists>ch \<in> set serialized. ch \<notin> set BASE64_CHARS"
  then obtain ch where f: "find (\<lambda>ch. ch \<notin> set BASE64_CHARS) serialized = Some ch"
    by (cases "find (\<lambda>ch. ch \<notin> set BASE64_CHARS) serialized") (auto simp: find_None_iff)
  then have "unpack serialized = Inl (InvalidCharacter ch)"
    by (subst unpack_error) simp
  with f show "\<exists>ch. find (\<lambda>ch. ch \<notin> set BASE64_CHARS) serialized = Some ch
            \<and> deserialize serialized = Inl (InvalidCharacter ch)"
    by (simp add: deserialize_def)
next
  show "deserialize ''#'' = Inl (InvalidCharacter (CHR ''#''))" by code_simp
qed

theorem invalid_character_error_witness:
  "deserialize ''AB#C!'' = Inl (InvalidCharacter (CHR ''#''))"
proof -
  have "find (\<lambda>ch. ch \<notin> set BASE64_CHARS) ''AB#C!'' = Some (CHR ''#'')"
    by (simp add: BASE64_CHARS_def)
  moreover have "\<exists>ch \<in> set ''AB#C!''. ch \<notin> set BASE64_CHARS"
    by (simp add: BASE64_CHARS_def)
  ultimately show ?thesis using invalid_character_error [of "''AB#C!''"] by simp
qed

text \<open>
  C6. \<open>deserialize\<close> raises the width-code error when the two digits it reads after the
  count are 11, and reads the numbers on 4, 7 and 9 digits when they are 00, 01 and 10.
  Here \<open>bitStr\<close> is the unpacked input and \<open>pos\<close> the position after the count (7 or
  11, by the flag).
\<close>

theorem width_code_read:
  assumes "unpack serialized = Inr bitStr" and "read_count bitStr = (count, pos)"
  shows "(substr bitStr pos 2 = ''11'' \<longrightarrow> deserialize serialized = Inl InvalidBitsCode)
       \<and> (substr bitStr pos 2 = ''00'' \<longrightarrow>
            deserialize serialized = Inr (read_numbers bitStr 4 (pos + 2) (rounds count)))
       \<and> (substr bitStr pos 2 = ''01'' \<longrightarrow>
            deserialize serialized = Inr (read_numbers bitStr 7 (pos + 2) (rounds count)))
       \<and> (substr bitStr pos 2 = ''10'' \<longrightarrow>
            deserialize serialized = Inr (read_numbers bitStr 9 (pos + 2) (rounds count)))
       \<and> bitsPerNumber_of ''00'' = Inr 4 \<and> bitsPerNumber_of ''01'' = Inr 7
       \<and> bitsPerNumber_of ''10'' = Inr 9 \<and> bitsPerNumber_of ''11'' = Inl InvalidBitsCode"
  using assms by (simp add: deserialize_def read_bits_def bitsPerNumber_of_def)

theorem width_code_read_witness:
  "deserialize ''A4'' = Inl InvalidBitsCode
   \<and> deserialize ''Aig'' = Inr (read_numbers ''000000100010100000'' 4 9 1)
   \<and> deserialize ''AoU'' = Inr (read_numbers ''000000101000010100'' 7 9 1)
   \<and> deserialize ''AwF'' = Inr (read_numbers ''000000110000000101'' 9 9 1)
   \<and> read_numbers ''000000110000000101'' 9 9 1 = [Num 5]"
proof -
  have u: "unpack ''A4'' = Inr ''000000111000''" "unpack ''Aig'' = Inr ''000000100010100000''"
    "unpack ''AoU'' = Inr ''000000101000010100''" "unpack ''AwF'' = Inr ''000000110000000101''"
    by code_simp+
  have c: "read_count ''000000111000'' = (Num 1, 7)"
    "read_count ''000000100010100000'' = (Num 1, 7)"
    "read_count ''000000101000010100'' = (Num 1, 7)"
    "read_count ''000000110000000101'' = (Num 1, 7)"
    by code_simp+
  have s: "substr ''000000111000'' 7 2 = ''11''" "substr ''000000100010100000'' 7 2 = ''00''"
    "substr ''000000101000010100'' 7 2 = ''01''" "substr ''000000110000000101'' 7 2 = ''10''"
    by code_simp+
  have r: "rounds (Num 1) = 1" by (simp add: rounds_def)
  have n: "read_numbers ''000000110000000101'' 9 9 1 = [Num 5]" by code_simp
  from width_code_read [OF u(1) c(1)] s(1)
  have 1: "deserialize ''A4'' = Inl InvalidBitsCode" by blast
  from width_code_read [OF u(2) c(2)] s(2)
  have 2: "deserialize ''Aig'' = Inr (read_numbers ''000000100010100000'' 4 9 1)"
    by (simp add: r)
  from width_code_read [OF u(3) c(3)] s(3)
  have 3: "deserialize ''AoU'' = Inr (read_numbers ''000000101000010100'' 7 9 1)"
    by (simp add: r)
  from width_code_read [OF u(4) c(4)] s(4)
  have 4: "deserialize ''AwF'' = Inr (read_numbers ''000000110000000101'' 9 9 1)"
    by (simp add: r)
  from 1 2 3 4 n show ?thesis by blast
qed

text \<open>
  C7. A sequence of exactly 63 valid elements is written with flag 0 and the count on 6
  digits (\<open>0 111111\<close>); one of exactly 64 with flag 1 and the count on 10 digits
  (\<open>1 0001000000\<close>). In both cases the reader gets the count back from the header (63
  at position 7, 64 at position 11), and the whole sequence comes back.
\<close>

theorem length_field_boundary:
  assumes "\<forall>num \<in> set numbers. 1 \<le> num \<and> num \<le> 300"
  shows "(length numbers = 63 \<longrightarrow>
            (\<exists>bitStr. bitStr_of numbers = Inr bitStr \<and> take 7 bitStr = ''0111111''
                      \<and> read_count bitStr = (Num 63, 7))
            \<and> decode_encode numbers = Inr (map Num numbers))
       \<and> (length numbers = 64 \<longrightarrow>
            (\<exists>bitStr. bitStr_of numbers = Inr bitStr \<and> take 11 bitStr = ''10001000000''
                      \<and> read_count bitStr = (Num 64, 11))
            \<and> decode_encode numbers = Inr (map Num numbers))"
proof -
  have f63: "length_field 63 = ''0111111''" and f64: "length_field 64 = ''10001000000''"
    by code_simp+
  show ?thesis
  proof (intro conjI impI)
    assume l: "length numbers = 63"
    then have "length numbers \<le> max_arguments" by (simp add: max_arguments_def)
    with assms obtain rest where
      b: "bitStr_of numbers = Inr (length_field (length numbers) @ rest)"
      using bitStr_of_prefix by blast
    have "read_count (length_field 63 @ rest) = (Num (int 63), 7)"
      by (rule read_count_short) simp
    with b l show "\<exists>bitStr. bitStr_of numbers = Inr bitStr \<and> take 7 bitStr = ''0111111''
                      \<and> read_count bitStr = (Num 63, 7)"
      by (simp add: f63)
    from l show "decode_encode numbers = Inr (map Num numbers)"
      by (intro decode_encode_roundtrip assms) simp
  next
    assume l: "length numbers = 64"
    then have "length numbers \<le> max_arguments" by (simp add: max_arguments_def)
    with assms obtain rest where
      b: "bitStr_of numbers = Inr (length_field (length numbers) @ rest)"
      using bitStr_of_prefix by blast
    have "read_count (length_field 64 @ rest) = (Num (int 64), 11)"
      by (rule read_count_long) simp_all
    with b l show "\<exists>bitStr. bitStr_of numbers = Inr bitStr \<and> take 11 bitStr = ''10001000000''
                      \<and> read_count bitStr = (Num 64, 11)"
      by (simp add: f64)
    from l show "decode_encode numbers = Inr (map Num numbers)"
      by (intro decode_encode_roundtrip assms) simp
  qed
qed

theorem length_field_boundary_witness:
  "(\<exists>bitStr. bitStr_of (replicate 63 1) = Inr bitStr \<and> take 7 bitStr = ''0111111''
             \<and> read_count bitStr = (Num 63, 7))
   \<and> decode_encode (replicate 63 1) = Inr (map Num (replicate 63 1))
   \<and> (\<exists>bitStr. bitStr_of (replicate 64 1) = Inr bitStr \<and> take 11 bitStr = ''10001000000''
             \<and> read_count bitStr = (Num 64, 11))
   \<and> decode_encode (replicate 64 1) = Inr (map Num (replicate 64 1))"
  using length_field_boundary [of "replicate 63 1"] length_field_boundary [of "replicate 64 1"]
  by simp

text \<open>
  C8 (as amended). For every sequence of elements in [1,300], whenever \<open>serialize\<close>
  returns a string, as it does when the sequence has at most \<open>max_arguments\<close> elements,
  the string has characters of the alphabet only and the padded bit string has a length
  that is a multiple of 6 (six digits for each character); when the count is at most
  1023, \<open>serialize\<close> returns and the output has exactly \<open>ceil (totalBits / 6)\<close>
  characters, where \<open>totalBits\<close> is the length of the header (9 digits when count < 64,
  13 otherwise) plus count times the selected width. The ceiling is written
  \<open>(totalBits + 5) div 6\<close> and by its two bounds.
\<close>

theorem output_alphabet_and_length:
  assumes "\<forall>num \<in> set numbers. 1 \<le> num \<and> num \<le> 300"
  shows "(\<forall>s. serialize numbers = Inr s \<longrightarrow>
            set s \<subseteq> set BASE64_CHARS
            \<and> (\<exists>bitStr. bitStr_of numbers = Inr bitStr
                  \<and> length bitStr mod 6 = 0 \<and> length bitStr = 6 * length s))
       \<and> (length numbers \<le> max_arguments \<longrightarrow> (\<exists>s. serialize numbers = Inr s))
       \<and> (length numbers \<le> 1023 \<longrightarrow>
            (\<exists>s bitsPerNumber totalBits.
               serialize numbers = Inr s
               \<and> determineBitsPerNumber numbers = Inr bitsPerNumber
               \<and> totalBits = (if length numbers < 64 then 9 else 13)
                             + length numbers * bitsPerNumber
               \<and> length s = (totalBits + 5) div 6
               \<and> totalBits \<le> 6 * length s \<and> 6 * length s < totalBits + 6))"
proof (intro conjI impI allI)
  fix s
  assume r: "serialize numbers = Inr s"
  then obtain b where "bitStr_of numbers = Inr b"
    by (cases "bitStr_of numbers") (auto simp: serialize_def)
  then have m: "length numbers \<le> max_arguments" by (rule bitStr_of_Inr)
  from serialize_length [OF assms m] r obtain bitStr where
    f: "bitStr_of numbers = Inr bitStr" "set s \<subseteq> set BASE64_CHARS"
       "length bitStr = 6 * length s"
    by auto
  from f(2) show "set s \<subseteq> set BASE64_CHARS" .
  from f(3) have "length bitStr mod 6 = 0" by simp
  with f(1,3) show "\<exists>bitStr. bitStr_of numbers = Inr bitStr
                  \<and> length bitStr mod 6 = 0 \<and> length bitStr = 6 * length s"
    by (intro exI [of _ bitStr] conjI)
next
  assume "length numbers \<le> max_arguments"
  from serialize_length [OF assms this] show "\<exists>s. serialize numbers = Inr s" by blast
next
  assume n: "length numbers \<le> 1023"
  then have m: "length numbers \<le> max_arguments" by (simp add: max_arguments_def)
  from serialize_length [OF assms m] obtain s where
    r: "serialize numbers = Inr s" and
    l: "length s = (header_bits (length numbers) + length numbers * width numbers + 5) div 6"
    by blast
  define t where "t = (if length numbers < 64 then 9 else 13) + length numbers * width numbers"
  from n have "header_bits (length numbers) = (if length numbers < 64 then 9 else 13)"
    by (simp add: header_bits_def)
  with l have lt: "length s = (t + 5) div 6" by (simp add: t_def)
  then have lo: "t \<le> 6 * length s" and hi: "6 * length s < t + 6" by simp_all
  have c: "serialize numbers = Inr s
           \<and> determineBitsPerNumber numbers = Inr (width numbers)
           \<and> t = (if length numbers < 64 then 9 else 13) + length numbers * width numbers
           \<and> length s = (t + 5) div 6
           \<and> t \<le> 6 * length s \<and> 6 * length s < t + 6"
    using r determineBitsPerNumber_short [OF m] t_def lt lo hi by (intro conjI)
  show "\<exists>s bitsPerNumber totalBits.
               serialize numbers = Inr s
               \<and> determineBitsPerNumber numbers = Inr bitsPerNumber
               \<and> totalBits = (if length numbers < 64 then 9 else 13)
                             + length numbers * bitsPerNumber
               \<and> length s = (totalBits + 5) div 6
               \<and> totalBits \<le> 6 * length s \<and> 6 * length s < totalBits + 6"
    by (rule exI [of _ s], rule exI [of _ "width numbers"], rule exI [of _ t]) (rule c)
qed

theorem output_alphabet_and_length_witness:
  "serialize [1, 2, 3] = Inr ''BgkY''
   \<and> set ''BgkY'' \<subseteq> set BASE64_CHARS
   \<and> determineBitsPerNumber [1, 2, 3] = Inr 4
   \<and> length ''BgkY'' = (9 + 3 * 4 + 5) div 6"
proof -
  have v: "\<forall>num \<in> set [1, 2, 3 :: int]. 1 \<le> num \<and> num \<le> 300" by simp
  have s: "serialize [1, 2, 3] = Inr ''BgkY''" by code_simp
  have w: "determineBitsPerNumber [1, 2, 3] = Inr 4" by code_simp
  note t = output_alphabet_and_length [OF v]
  from t s have a: "set ''BgkY'' \<subseteq> set BASE64_CHARS" by blast
  from t obtain s' bitsPerNumber totalBits where
    f: "serialize [1, 2, 3] = Inr s'"
       "determineBitsPerNumber [1, 2, 3] = Inr bitsPerNumber"
       "totalBits = (if length [1, 2, 3 :: int] < 64 then 9 else 13)
                    + length [1, 2, 3 :: int] * bitsPerNumber"
       "length s' = (totalBits + 5) div 6"
    by auto
  from f(1) s have e: "s' = ''BgkY''" by simp
  from f(2) w have "bitsPerNumber = 4" by simp
  with f(3,4) e have "length ''BgkY'' = (9 + 3 * 4 + 5) div 6" by simp
  with a s w show ?thesis by blast
qed

text \<open>
  C8 as stated gives the header 13 digits for every count from 64 on; with 1025 times
  the number 10 (width 7) the count takes 11 digits, the header 14, and the output has
  one character more than \<open>ceil ((13 + 1025 * 7) / 6)\<close>.
\<close>

theorem output_length_fails_at_1025:
  "determineBitsPerNumber (replicate 1025 10) = Inr 7
   \<and> map_sum id length (serialize (replicate 1025 10))
     \<noteq> Inr ((13 + length (replicate 1025 (10::int)) * 7 + 5) div 6)"
proof -
  have v: "\<forall>num \<in> set (replicate 1025 (10::int)). 1 \<le> num \<and> num \<le> 300" by simp
  have m: "length (replicate 1025 (10::int)) \<le> max_arguments" by (simp add: max_arguments_def)
  have w: "width (replicate 1025 10) = 7"
    by (simp add: width_cases)
  have "length (bin_digits 1025) = 11" by code_simp
  then have h: "header_bits 1025 = 14" by (simp add: header_bits_def)
  from serialize_length [OF v m] obtain s where
    "serialize (replicate 1025 10) = Inr s" and
    "length s = (header_bits (length (replicate 1025 (10::int)))
                 + length (replicate 1025 (10::int)) * width (replicate 1025 10) + 5)
                div 6"
    by blast
  then have "map_sum id length (serialize (replicate 1025 10))
     \<noteq> Inr ((13 + length (replicate 1025 (10::int)) * 7 + 5) div 6)"
    by (simp add: w h)
  moreover from determineBitsPerNumber_short [OF m] w
  have "determineBitsPerNumber (replicate 1025 10) = Inr 7" by simp
  ultimately show ?thesis by blast
qed

text \<open>
  C9. \<open>serialize []\<close> does not fail: the width of the empty sequence is 4 (the maximum of
  no number is below every threshold), the bit string is the header alone (flag 0, count
  000000, width code 00) padded to 12 digits, the output has the 2 characters \<open>AA\<close>, and
  \<open>deserialize\<close> of it is the empty sequence.
\<close>

theorem empty_sequence:
  "determineBitsPerNumber [] = Inr 4
   \<and> bitStr_of [] = Inr ''000000000000''
   \<and> serialize [] = Inr ''AA''
   \<and> deserialize ''AA'' = Inr []
   \<and> decode_encode [] = Inr []"
  by code_simp

text \<open>
  C10. \<open>deserialize\<close> checks the alphabet and the width code and nothing else: on a
  string over the alphabet whose width code is 00, 01 or 10 it returns as many numbers as
  the header counts, whatever digits follow, and the only errors it raises are the
  invalid-character and the width-code error. So \<open>A3/\<close> (count 1, width 9, element
  111111111) gives 511, and \<open>fg\<close> (count 63, width 4, three digits left) gives 0 and
  then 62 times \<^verbatim>\<open>NaN\<close>: values outside [1,300] and no error.
\<close>

theorem no_further_validation:
  "(set serialized \<subseteq> set BASE64_CHARS \<longrightarrow>
      (\<exists>bitStr. unpack serialized = Inr bitStr
         \<and> (substr bitStr (snd (read_count bitStr)) 2 \<in> {''00'', ''01'', ''10''} \<longrightarrow>
              (\<exists>ys. deserialize serialized = Inr ys
                    \<and> length ys = rounds (fst (read_count bitStr))))))
   \<and> (\<forall>e. deserialize serialized = Inl e \<longrightarrow>
             e = InvalidBitsCode \<or> (\<exists>ch. e = InvalidCharacter ch))
   \<and> deserialize ''A3/'' = Inr [Num 511]
   \<and> deserialize ''fg'' = Inr (Num 0 # replicate 62 NaN)"
proof (intro conjI impI allI)
  assume "set serialized \<subseteq> set BASE64_CHARS"
  then obtain bitStr where u: "unpack serialized = Inr bitStr"
    using unpack_total by blast
  have "substr bitStr (snd (read_count bitStr)) 2 \<in> {''00'', ''01'', ''10''} \<longrightarrow>
        (\<exists>ys. deserialize serialized = Inr ys \<and> length ys = rounds (fst (read_count bitStr)))"
    using read_bits_accepts [of bitStr] by (simp add: deserialize_def u)
  with u show "\<exists>bitStr. unpack serialized = Inr bitStr
         \<and> (substr bitStr (snd (read_count bitStr)) 2 \<in> {''00'', ''01'', ''10''} \<longrightarrow>
              (\<exists>ys. deserialize serialized = Inr ys
                    \<and> length ys = rounds (fst (read_count bitStr))))"
    by blast
next
  fix e
  assume d: "deserialize serialized = Inl e"
  show "e = InvalidBitsCode \<or> (\<exists>ch. e = InvalidCharacter ch)"
  proof (cases "unpack serialized")
    case (Inl e')
    with d have "e' = e" by (simp add: deserialize_def)
    with Inl show ?thesis using unpack_Inl by blast
  next
    case (Inr bitStr)
    with d have "read_bits bitStr = Inl e" by (simp add: deserialize_def)
    with read_bits_result [of bitStr] show ?thesis by auto
  qed
next
  show "deserialize ''A3/'' = Inr [Num 511]" by code_simp
next
  show "deserialize ''fg'' = Inr (Num 0 # replicate 62 NaN)" by code_simp
qed

theorem no_further_validation_witness:
  "unpack ''A3/'' = Inr ''000000110111111111''
   \<and> (\<exists>ys. deserialize ''A3/'' = Inr ys \<and> length ys = 1)"
proof -
  have a: "set ''A3/'' \<subseteq> set BASE64_CHARS" by (simp add: BASE64_CHARS_def)
  have u: "unpack ''A3/'' = Inr ''000000110111111111''" by code_simp
  have c: "read_count ''000000110111111111'' = (Num 1, 7)" by code_simp
  have s: "substr ''000000110111111111'' 7 2 = ''10''" by code_simp
  from no_further_validation [of "''A3/''"] a u c s show ?thesis
    by (simp add: rounds_def)
qed

end
